theory Spec2Isabelle
  imports Main "HOL-Library.AList" "HOL-Library.Char_ord" "HOL-Library.List_Lexorder"
begin

text \<open>
  A model of the two programs of the repository, \<^verbatim>\<open>sysmon2tree.py\<close> (EVTX front end) and
  \<^verbatim>\<open>sysmon_csv_tree.py\<close> (CSV front end): how each turns the units of its input into
  process records, stores them in the registry, links children to parents, selects and
  orders the roots and renders the forest.  The input is the sequence of units that the
  decoding library delivers, read to its end or to the cap; opening the files, the progress
  lines, the clock, and the constant text around the tree in the document (style sheet,
  script, counters, generation time) are left out.
\<close>

section \<open>Strings and escaping\<close>

text \<open>
  Python strings are modelled as \<^typ>\<open>string\<close>.  The call \<^verbatim>\<open>t.replace(old, new)\<close> is only
  used by the source with a pattern \<^verbatim>\<open>old\<close> of one character: every occurrence of that
  character is replaced, from left to right, and the inserted text is not scanned again.
\<close>

definition replace :: \<open>char \<Rightarrow> string \<Rightarrow> string \<Rightarrow> string\<close> where
  \<open>replace old new t = concat (map (\<lambda>c. if c = old then new else [c]) t)\<close>

text \<open>
  \<^verbatim>\<open>_esc\<close> is the same in both front ends:
  \<^verbatim>\<open>
  def _esc(self, t):
      if not t: return ""
      return t.replace('&','&amp;').replace('<','&lt;').replace('>','&gt;').replace('"','&quot;')
  \<close>
\<close>

definition esc :: \<open>string \<Rightarrow> string\<close> where
  \<open>esc t =
     (if t = [] then []
      else replace (CHR 0x22) ''&quot;''
             (replace CHR ''>'' ''&gt;''
               (replace CHR ''<'' ''&lt;''
                 (replace CHR ''&'' ''&amp;'' t))))\<close>

text \<open>
  The entity table that \<^const>\<open>esc\<close> realises, one character at a time.  The apostrophe
  (\<^term>\<open>CHR 0x27\<close>) has no entry.
\<close>

definition entity :: \<open>char \<Rightarrow> string\<close> where
  \<open>entity c =
     (if c = CHR ''&'' then ''&amp;''
      else if c = CHR ''<'' then ''&lt;''
      else if c = CHR ''>'' then ''&gt;''
      else if c = CHR 0x22 then ''&quot;''
      else [c])\<close>

section \<open>Python built-ins used by the front ends\<close>

text \<open>
  \<^verbatim>\<open>int(s)\<close> on a string, base ten, in CPython 3.11: white space is stripped on both sides,
  one sign is allowed, then decimal digits, where a single underscore may stand between two
  digits; a text of more than 4300 digits is refused (the default of
  \<^verbatim>\<open>sys.get_int_max_str_digits()\<close>, which the source does not change; leading zeros count,
  the sign and the underscores do not).  Anything else raises \<^verbatim>\<open>ValueError\<close>, which is the
  value \<^term>\<open>None\<close> here.  A character stands for a code point below 256.  Of these, the
  ones that \<^verbatim>\<open>int\<close> strips are 0x09 to 0x0D, 0x20, 0x85 and 0xA0 (not 0x1C to 0x1F, which
  \<^verbatim>\<open>str.isspace\<close> accepts), and the decimal digits are \<^verbatim>\<open>0\<close> to \<^verbatim>\<open>9\<close>.
\<close>

definition is_space :: \<open>char \<Rightarrow> bool\<close> where
  \<open>is_space c \<longleftrightarrow>
     c \<in> set [CHR 0x09, CHR 0x0A, CHR 0x0B, CHR 0x0C, CHR 0x0D, CHR 0x20, CHR 0x85, CHR 0xA0]\<close>

definition strip :: \<open>string \<Rightarrow> string\<close> where
  \<open>strip s = rev (dropWhile is_space (rev (dropWhile is_space s)))\<close>

definition is_digit :: \<open>char \<Rightarrow> bool\<close> where
  \<open>is_digit c \<longleftrightarrow> c \<in> set ''0123456789''\<close>

definition digit_val :: \<open>char \<Rightarrow> int\<close> where
  \<open>digit_val c = int (of_char c) - 48\<close>

fun after_digit :: \<open>int \<Rightarrow> string \<Rightarrow> int option\<close> where
  \<open>after_digit acc [] = Some acc\<close>
| \<open>after_digit acc [c] = (if is_digit c then Some (10 * acc + digit_val c) else None)\<close>
| \<open>after_digit acc (c # d # ds) =
     (if is_digit c then after_digit (10 * acc + digit_val c) (d # ds)
      else if c = CHR ''_'' \<and> is_digit d then after_digit (10 * acc + digit_val d) ds
      else None)\<close>

definition max_str_digits :: nat where
  \<open>max_str_digits = 4300\<close>

definition digits_value :: \<open>string \<Rightarrow> int option\<close> where
  \<open>digits_value s =
     (case s of
        [] \<Rightarrow> None
      | c # cs \<Rightarrow>
          if is_digit c \<and> length (filter is_digit s) \<le> max_str_digits
          then after_digit (digit_val c) cs
          else None)\<close>

definition py_int :: \<open>string \<Rightarrow> int option\<close> where
  \<open>py_int s =
     (case strip s of
        [] \<Rightarrow> None
      | c # cs \<Rightarrow>
          if c = CHR ''-'' then map_option uminus (digits_value cs)
          else if c = CHR ''+'' then digits_value cs
          else digits_value (c # cs))\<close>

text \<open>\<^verbatim>\<open>s.split(sep)\<close> with a separator of one character; the result is never empty.\<close>

fun split :: \<open>char \<Rightarrow> string \<Rightarrow> string list\<close> where
  \<open>split sep [] = [[]]\<close>
| \<open>split sep (c # cs) =
     (if c = sep then [] # split sep cs
      else (case split sep cs of
              [] \<Rightarrow> [[c]]
            | w # ws \<Rightarrow> (c # w) # ws))\<close>

text \<open>\<^verbatim>\<open>str(n)\<close> of an integer, as the f-strings of the renderer print it.\<close>

fun digits :: \<open>nat \<Rightarrow> string\<close> where
  \<open>digits n =
     (if n < 10 then [char_of (48 + n)]
      else digits (n div 10) @ [char_of (48 + n mod 10)])\<close>

declare digits.simps [simp del]

definition str :: \<open>int \<Rightarrow> string\<close> where
  \<open>str i = (if i < 0 then CHR ''-'' # digits (nat (- i)) else digits (nat i))\<close>

section \<open>Process records and the registry\<close>

text \<open>
  \<^verbatim>\<open>
  class ProcessInfo:
      def __init__(self, pid, name, ppid=None, command_line="", current_directory="",
                   user="", timestamp=""):
          ...
          self.children = []
  \<close>
\<close>

record ProcessInfo =
  pid :: int
  name :: string
  ppid :: \<open>int option\<close>
  command_line :: string
  current_directory :: string
  user :: string
  timestamp :: string
  children :: \<open>int list\<close>

definition ProcessInfo_init ::
  \<open>int \<Rightarrow> string \<Rightarrow> int option \<Rightarrow> string \<Rightarrow> string \<Rightarrow> string \<Rightarrow> string \<Rightarrow> ProcessInfo\<close> where
  \<open>ProcessInfo_init p n pp cl cd u ts =
     \<lparr>pid = p, name = n, ppid = pp, command_line = cl, current_directory = cd,
      user = u, timestamp = ts, children = []\<rparr>\<close>

text \<open>
  \<^verbatim>\<open>self.processes\<close> is a Python dictionary from pid to record.  A dictionary keeps its keys
  in the order of their first insertion and a store to a key that is there replaces the
  value in place; that is \<^const>\<open>AList.update\<close> on an association list.  The field data
  of one event (\<^verbatim>\<open>data\<close>) is a dictionary from field name to text.
\<close>

type_synonym registry = \<open>(int \<times> ProcessInfo) list\<close>

type_synonym fields = \<open>(string \<times> string) list\<close>

record parser =
  processes :: registry
  total_events :: nat
  process_events :: nat

definition parser_init :: parser where
  \<open>parser_init = \<lparr>processes = [], total_events = 0, process_events = 0\<rparr>\<close>

text \<open>The statement \<^verbatim>\<open>self.processes[pid] = ProcessInfo(pid, ...)\<close> of both front ends.\<close>

definition registry_insert :: \<open>ProcessInfo \<Rightarrow> registry \<Rightarrow> registry\<close> where
  \<open>registry_insert p reg = AList.update (pid p) p reg\<close>

datatype rejected = Malformed | ValueError | NotPositive

text \<open>
  \<^verbatim>\<open>int(data.get("ParentProcessId", 0)) if data.get("ParentProcessId") else None\<close>,
  the same expression in both front ends: a missing or empty text gives \<^verbatim>\<open>None\<close>, any
  other text goes through \<^verbatim>\<open>int\<close>.
\<close>

definition parent_process_id :: \<open>fields \<Rightarrow> rejected + int option\<close> where
  \<open>parent_process_id data =
     (case map_of data ''ParentProcessId'' of
        None \<Rightarrow> Inr None
      | Some s \<Rightarrow>
          if s = [] then Inr None
          else (case py_int s of None \<Rightarrow> Inl ValueError | Some n \<Rightarrow> Inr (Some n)))\<close>

text \<open>\<^verbatim>\<open>int(data.get("ProcessId", 0))\<close>: the default is the integer 0.\<close>

definition process_id :: \<open>fields \<Rightarrow> rejected + int\<close> where
  \<open>process_id data =
     (case map_of data ''ProcessId'' of
        None \<Rightarrow> Inr 0
      | Some s \<Rightarrow> (case py_int s of None \<Rightarrow> Inl ValueError | Some n \<Rightarrow> Inr n))\<close>

text \<open>
  \<^verbatim>\<open>image = data.get("Image", "Unknown")\<close>,
  \<^verbatim>\<open>name = image.split("\\")[-1] if "\\" in image else image\<close>.
\<close>

definition image_name :: \<open>fields \<Rightarrow> string\<close> where
  \<open>image_name data =
     (let image = (case map_of data ''Image'' of None \<Rightarrow> ''Unknown'' | Some s \<Rightarrow> s)
      in if CHR 0x5C \<in> set image then last (split (CHR 0x5C) image) else image)\<close>

definition get_or_empty :: \<open>fields \<Rightarrow> string \<Rightarrow> string\<close> where
  \<open>get_or_empty data k = (case map_of data k of None \<Rightarrow> [] | Some s \<Rightarrow> s)\<close>

section \<open>The EVTX front end (sysmon2tree.py)\<close>

text \<open>
  One unit of the log is an XML text.  \<^verbatim>\<open>ET.fromstring\<close> either raises \<^verbatim>\<open>ParseError\<close> or
  gives a tree, of which the code reads: the text of the \<^verbatim>\<open>EventID\<close> element (looked up
  with the event namespace, then without; \<^term>\<open>None\<close> when there is no element or no
  text), the \<^verbatim>\<open>Data\<close> elements with their \<^verbatim>\<open>Name\<close> attribute and text (with the namespace,
  and without), and the \<^verbatim>\<open>SystemTime\<close> attribute of \<^verbatim>\<open>TimeCreated\<close> (\<^term>\<open>None\<close> when the
  element or the attribute is missing: both give the empty time stamp).
\<close>

record xml_event =
  event_id :: \<open>string option\<close>
  ns_data :: \<open>(string option \<times> string option) list\<close>
  plain_data :: \<open>(string option \<times> string option) list\<close>
  system_time :: \<open>string option\<close>

datatype evtx_unit = ParseError | Xml xml_event

text \<open>
  \<^verbatim>\<open>
  for elem in root.findall(...):
      name = elem.get("Name")
      if name and elem.text:
          data[name] = elem.text
  \<close>
\<close>

definition collect_data :: \<open>(string option \<times> string option) list \<Rightarrow> fields \<Rightarrow> fields\<close> where
  \<open>collect_data elems data =
     fold (\<lambda>(n, t) d.
            (case (n, t) of
               (Some nm, Some tx) \<Rightarrow> if nm \<noteq> [] \<and> tx \<noteq> [] then AList.update nm tx d else d
             | _ \<Rightarrow> d)) elems data\<close>

definition event_data :: \<open>xml_event \<Rightarrow> fields\<close> where
  \<open>event_data root =
     (let data = collect_data (ns_data root) []
      in if data = [] then collect_data (plain_data root) data else data)\<close>

text \<open>
  The body of \<^verbatim>\<open>_extract_process_data\<close> up to the store: the record it builds, or why it
  builds none (\<^verbatim>\<open>int\<close> raised, or the pid is not positive).
\<close>

definition evtx_record :: \<open>xml_event \<Rightarrow> rejected + ProcessInfo\<close> where
  \<open>evtx_record root =
     (let data = event_data root;
          ts = (case system_time root of None \<Rightarrow> [] | Some s \<Rightarrow> take 19 s)
      in case process_id data of
           Inl e \<Rightarrow> Inl e
         | Inr p \<Rightarrow>
             if p > 0 then
               (case parent_process_id data of
                  Inl e \<Rightarrow> Inl e
                | Inr pp \<Rightarrow>
                    Inr (ProcessInfo_init p (image_name data) pp
                          (get_or_empty data ''CommandLine'')
                          (get_or_empty data ''CurrentDirectory'')
                          (get_or_empty data ''User'') ts))
             else Inl NotPositive)\<close>

text \<open>\<^verbatim>\<open>_extract_process_data\<close>: the bare \<^verbatim>\<open>except: pass\<close> leaves the parser as it was.\<close>

definition extract_process_data :: \<open>xml_event \<Rightarrow> parser \<Rightarrow> parser\<close> where
  \<open>extract_process_data root st =
     (case evtx_record root of
        Inl e \<Rightarrow> st
      | Inr p \<Rightarrow> st\<lparr>processes := registry_insert p (processes st)\<rparr>)\<close>

text \<open>\<^verbatim>\<open>if max_events and event_count > max_events: break\<close>\<close>

definition cap_reached :: \<open>int option \<Rightarrow> nat \<Rightarrow> bool\<close> where
  \<open>cap_reached max_events event_count =
     (case max_events of
        None \<Rightarrow> False
      | Some m \<Rightarrow> m \<noteq> 0 \<and> int event_count > m)\<close>

text \<open>
  The body of the loop of \<^verbatim>\<open>parse_evtx\<close> after the cap test.  The local counter
  \<^verbatim>\<open>skipped_count\<close> is never read and is left out.
\<close>

definition evtx_event :: \<open>evtx_unit \<Rightarrow> parser \<Rightarrow> parser\<close> where
  \<open>evtx_event u st =
     (case u of
        ParseError \<Rightarrow> st
      | Xml root \<Rightarrow>
          if event_id root \<noteq> Some ''1'' then st
          else (let st' = extract_process_data root st
                in st'\<lparr>process_events := process_events st' + 1\<rparr>))\<close>

fun evtx_loop :: \<open>int option \<Rightarrow> nat \<Rightarrow> evtx_unit list \<Rightarrow> parser \<Rightarrow> parser\<close> where
  \<open>evtx_loop max_events event_count [] st = st\<close>
| \<open>evtx_loop max_events event_count (u # us) st =
     (let event_count' = event_count + 1;
          st' = st\<lparr>total_events := event_count'\<rparr>
      in if cap_reached max_events event_count' then st'
         else evtx_loop max_events event_count' us (evtx_event u st'))\<close>

section \<open>The CSV front end (sysmon\_csv\_tree.py)\<close>

text \<open>
  One row of the CSV file, as \<^verbatim>\<open>csv.DictReader\<close> gives it: the columns \<^verbatim>\<open>EventId\<close>,
  \<^verbatim>\<open>UserName\<close> and \<^verbatim>\<open>TimeCreated\<close>, and the column \<^verbatim>\<open>Payload\<close> after \<^verbatim>\<open>json.loads\<close> and
  \<^verbatim>\<open>payload.get('EventData', {}).get('Data', [])\<close>: either some step raised, or the list
  of items with their \<^verbatim>\<open>@Name\<close> and \<^verbatim>\<open>#text\<close> entries (a payload without the column or
  without these keys gives the empty list).
\<close>

datatype csv_payload = BadPayload | EventData \<open>(string option \<times> string option) list\<close>

record csv_row =
  row_event_id :: \<open>string option\<close>
  row_payload :: csv_payload
  row_user_name :: \<open>string option\<close>
  row_time_created :: \<open>string option\<close>

text \<open>
  \<^verbatim>\<open>
  for item in event_data:
      name = item.get('@Name', '')
      text = item.get('#text', '')
      if name:
          data[name] = text
  \<close>
\<close>

definition collect_items :: \<open>(string option \<times> string option) list \<Rightarrow> fields\<close> where
  \<open>collect_items items =
     fold (\<lambda>(n, t) d.
            (let nm = (case n of None \<Rightarrow> [] | Some s \<Rightarrow> s);
                 tx = (case t of None \<Rightarrow> [] | Some s \<Rightarrow> s)
             in if nm \<noteq> [] then AList.update nm tx d else d)) items []\<close>

definition csv_record :: \<open>csv_row \<Rightarrow> rejected + ProcessInfo\<close> where
  \<open>csv_record row =
     (case row_payload row of
        BadPayload \<Rightarrow> Inl Malformed
      | EventData items \<Rightarrow>
          (let data = collect_items items
           in case process_id data of
                Inl e \<Rightarrow> Inl e
              | Inr p \<Rightarrow>
                  if p \<le> 0 then Inl NotPositive
                  else (case parent_process_id data of
                          Inl e \<Rightarrow> Inl e
                        | Inr pp \<Rightarrow>
                            Inr (ProcessInfo_init p (image_name data) pp
                                  (get_or_empty data ''CommandLine'')
                                  (get_or_empty data ''CurrentDirectory'')
                                  (case map_of data ''User'' of
                                     Some u \<Rightarrow> u
                                   | None \<Rightarrow>
                                       (case row_user_name row of None \<Rightarrow> [] | Some u \<Rightarrow> u))
                                  (case row_time_created row of
                                     None \<Rightarrow> []
                                   | Some s \<Rightarrow> if s = [] then [] else take 19 s)))))\<close>

text \<open>
  \<^verbatim>\<open>_extract_process_from_row\<close>: the counter \<^verbatim>\<open>process_events\<close> is incremented after the
  store, inside the \<^verbatim>\<open>try\<close>, so only for a row that gave a record.
\<close>

definition extract_process_from_row :: \<open>csv_row \<Rightarrow> parser \<Rightarrow> parser\<close> where
  \<open>extract_process_from_row row st =
     (case csv_record row of
        Inl e \<Rightarrow> st
      | Inr p \<Rightarrow> st\<lparr>processes := registry_insert p (processes st),
                    process_events := process_events st + 1\<rparr>)\<close>

definition csv_event :: \<open>csv_row \<Rightarrow> parser \<Rightarrow> parser\<close> where
  \<open>csv_event row st =
     (if row_event_id row \<noteq> Some ''1'' then st else extract_process_from_row row st)\<close>

fun csv_loop :: \<open>int option \<Rightarrow> csv_row list \<Rightarrow> parser \<Rightarrow> parser\<close> where
  \<open>csv_loop max_events [] st = st\<close>
| \<open>csv_loop max_events (row # rows) st =
     (let st' = st\<lparr>total_events := total_events st + 1\<rparr>
      in if cap_reached max_events (total_events st') then st'
         else csv_loop max_events rows (csv_event row st'))\<close>

section \<open>Tree building and root selection (both front ends)\<close>

text \<open>
  \<^verbatim>\<open>
  def _build_tree(self):
      for pid, proc in self.processes.items():
          if proc.ppid and proc.ppid in self.processes:
              self.processes[proc.ppid].children.append(pid)
  \<close>
  The loop changes \<^verbatim>\<open>children\<close> fields only, and reads the key and \<^verbatim>\<open>ppid\<close> of each entry,
  so it is a fold over the entries as they are when it starts.
\<close>

definition link :: \<open>int \<times> ProcessInfo \<Rightarrow> registry \<Rightarrow> registry\<close> where
  \<open>link e reg =
     (case ppid (snd e) of
        None \<Rightarrow> reg
      | Some pp \<Rightarrow>
          if pp \<noteq> 0 \<and> pp \<in> fst ` set reg
          then AList.map_entry pp (\<lambda>q. q\<lparr>children := children q @ [fst e]\<rparr>) reg
          else reg)\<close>

definition build_tree :: \<open>registry \<Rightarrow> registry\<close> where
  \<open>build_tree reg = fold link reg reg\<close>

definition parse_evtx :: \<open>int option \<Rightarrow> evtx_unit list \<Rightarrow> parser \<Rightarrow> parser\<close> where
  \<open>parse_evtx max_events units st =
     (let st' = evtx_loop max_events 0 units st
      in st'\<lparr>processes := build_tree (processes st')\<rparr>)\<close>

definition parse_csv :: \<open>int option \<Rightarrow> csv_row list \<Rightarrow> parser \<Rightarrow> parser\<close> where
  \<open>parse_csv max_events rows st =
     (let st' = csv_loop max_events rows st
      in st'\<lparr>processes := build_tree (processes st')\<rparr>)\<close>

text \<open>
  \<^verbatim>\<open>
  def get_root_processes(self):
      roots = [p for p in self.processes.values()
               if p.ppid is None or p.ppid not in self.processes]
      roots.sort(key=lambda x: x.timestamp)
      return roots
  \<close>
  \<^verbatim>\<open>list.sort\<close> is a stable sort, ascending in the key; strings compare lexicographically,
  character by character.
\<close>

definition is_root :: \<open>registry \<Rightarrow> ProcessInfo \<Rightarrow> bool\<close> where
  \<open>is_root reg p = (case ppid p of None \<Rightarrow> True | Some pp \<Rightarrow> pp \<notin> fst ` set reg)\<close>

definition get_root_processes :: \<open>registry \<Rightarrow> ProcessInfo list\<close> where
  \<open>get_root_processes reg = sort_key timestamp (filter (is_root reg) (map snd reg))\<close>

text \<open>
  The registries that a run of either program hands to its renderer: \<^verbatim>\<open>main\<close> makes one
  parser, calls its parse method once, and then \<^verbatim>\<open>generate_html\<close>.
\<close>

inductive final_registry :: \<open>registry \<Rightarrow> bool\<close> where
  evtx: \<open>final_registry (processes (parse_evtx max_events units parser_init))\<close>
| csv: \<open>final_registry (processes (parse_csv max_events rows parser_init))\<close>

section \<open>Rendering\<close>

text \<open>
  \<^verbatim>\<open>
  children = [self.processes[c] for c in proc.children if c in self.processes]
  children.sort(key=lambda x: x.timestamp)
  \<close>
\<close>

definition sorted_children :: \<open>registry \<Rightarrow> ProcessInfo \<Rightarrow> ProcessInfo list\<close> where
  \<open>sorted_children reg proc =
     sort_key timestamp (List.map_filter (map_of reg) (children proc))\<close>

datatype front_end = Evtx | Csv

text \<open>The two renderers differ in three blanks only.\<close>

definition blank :: \<open>front_end \<Rightarrow> string\<close> where
  \<open>blank fe = (case fe of Evtx \<Rightarrow> [] | Csv \<Rightarrow> '' '')\<close>

text \<open>The text of one node before its children, \<^verbatim>\<open>h\<close> up to \<^verbatim>\<open>if has_ch:\<close>.\<close>

definition node_html :: \<open>front_end \<Rightarrow> ProcessInfo \<Rightarrow> string\<close> where
  \<open>node_html fe proc =
     (let has_ch = (length (children proc) > 0);
          tog = ''<span class="toggle">'' @ (if has_ch then ''[+]'' else []) @ ''</span>''
      in ''<div class="process"><div class="process-header" onclick="toggleProcess(this)">'' @ tog
         @ ''<span class="pid">PID:'' @ str (pid proc) @ ''</span>'' @ blank fe
         @ ''<span class="ppid">| PPID:''
         @ (case ppid proc of None \<Rightarrow> ''ROOT'' | Some pp \<Rightarrow> if pp = 0 then ''ROOT'' else str pp)
         @ ''</span>'' @ blank fe
         @ ''<span class="name">| '' @ esc (name proc) @ ''</span>''
         @ (if has_ch
            then blank fe @ ''<span style="color:#6c757d">(''
                 @ str (int (length (children proc))) @ '' children)</span>''
            else [])
         @ ''</div><div class="details">''
         @ (if command_line proc \<noteq> []
            then ''<div class="detail-row"><span class="detail-label">CMD:</span>''
                 @ esc (command_line proc) @ ''</div>''
            else [])
         @ (if current_directory proc \<noteq> []
            then ''<div class="detail-row"><span class="detail-label">DIR:</span>''
                 @ esc (current_directory proc) @ ''</div>''
            else [])
         @ (if user proc \<noteq> []
            then ''<div class="detail-row"><span class="detail-label">USER:</span>''
                 @ esc (user proc) @ ''</div>''
            else [])
         @ (if timestamp proc \<noteq> []
            then ''<div class="detail-row"><span class="detail-label">TIME:</span>''
                 @ timestamp proc @ ''</div>''
            else [])
         @ ''</div>'')\<close>

text \<open>
  The block of the children, given the text of each:
  \<^verbatim>\<open>
  h += '<div class="children">'
  for child in children:
      h += self._gen_proc_html(child)
  h += '</div>'
  \<close>
\<close>

definition children_html :: \<open>string list \<Rightarrow> string\<close> where
  \<open>children_html hs = ''<div class="children">'' @ concat hs @ ''</div>''\<close>

text \<open>
  \<^verbatim>\<open>_gen_proc_html\<close> calls itself on every child and has no other bound on its depth.  The
  first argument here is the depth allowed: \<^term>\<open>None\<close> says that the recursion went
  deeper, where the interpreter raises \<^verbatim>\<open>RecursionError\<close>; nothing in the source catches
  it, so no document is written.
\<close>

fun gen_proc_html :: \<open>nat \<Rightarrow> front_end \<Rightarrow> registry \<Rightarrow> ProcessInfo \<Rightarrow> string option\<close> where
  \<open>gen_proc_html 0 fe reg proc = None\<close>
| \<open>gen_proc_html (Suc n) fe reg proc =
     (if length (children proc) > 0
      then (case those (map (gen_proc_html n fe reg) (sorted_children reg proc)) of
              None \<Rightarrow> None
            | Some hs \<Rightarrow> Some (node_html fe proc @ children_html hs @ ''</div>''))
      else Some (node_html fe proc @ ''</div>''))\<close>

definition gen_tree_html ::
  \<open>nat \<Rightarrow> front_end \<Rightarrow> registry \<Rightarrow> ProcessInfo list \<Rightarrow> string option\<close> where
  \<open>gen_tree_html n fe reg roots = map_option concat (those (map (gen_proc_html n fe reg) roots))\<close>

text \<open>
  The part of \<^verbatim>\<open>generate_html\<close> that depends on the records:
  \<^verbatim>\<open>roots = self.get_root_processes()\<close> and \<^verbatim>\<open>self._gen_tree_html(roots)\<close>.
\<close>

definition tree_html :: \<open>nat \<Rightarrow> front_end \<Rightarrow> registry \<Rightarrow> string option\<close> where
  \<open>tree_html n fe reg = gen_tree_html n fe reg (get_root_processes reg)\<close>

text \<open>
  The depth that the interpreter allows.  It raises \<^verbatim>\<open>RecursionError\<close> when the number of
  frames goes beyond \<^verbatim>\<open>sys.getrecursionlimit()\<close>, which is 1000 and which neither program
  changes.  Of these frames, \<open>frames\<close> are not calls of \<^verbatim>\<open>_gen_proc_html\<close>: the callers
  from the module down to \<^verbatim>\<open>_gen_tree_html\<close> (with its list comprehension), and the frame
  that the innermost \<^verbatim>\<open>_gen_proc_html\<close> needs for \<^verbatim>\<open>_esc\<close> or for the key function of
  \<^verbatim>\<open>sort\<close>.  Their number depends on the version of the interpreter and on how the program
  is started, so it is an argument; the rest is the depth left for \<^verbatim>\<open>_gen_proc_html\<close>.
\<close>

definition recursion_limit :: nat where
  \<open>recursion_limit = 1000\<close>

definition render_forest :: \<open>nat \<Rightarrow> front_end \<Rightarrow> registry \<Rightarrow> string option\<close> where
  \<open>render_forest frames fe reg = tree_html (recursion_limit - frames) fe reg\<close>

text \<open>
  The call stacks of \<^verbatim>\<open>_gen_proc_html\<close> during \<^verbatim>\<open>_gen_tree_html(roots)\<close>, innermost call
  first: the rendering path of the record at the head.
\<close>

inductive call_path :: \<open>registry \<Rightarrow> ProcessInfo list \<Rightarrow> bool\<close> where
  root: \<open>r \<in> set (get_root_processes reg) \<Longrightarrow> call_path reg [r]\<close>
| child: \<open>call_path reg (p # ps) \<Longrightarrow> length (children p) > 0 \<Longrightarrow>
          c \<in> set (sorted_children reg p) \<Longrightarrow> call_path reg (c # p # ps)\<close>

section \<open>Invariants of the registry\<close>

text \<open>
  What holds of the registry while records are inserted: one entry for each key, every
  record stored under its own pid, which is positive, and no child list filled yet.
\<close>

definition registry_inv :: \<open>registry \<Rightarrow> bool\<close> where
  \<open>registry_inv reg \<longleftrightarrow>
     distinct (map fst reg)
     \<and> (\<forall>e \<in> set reg. pid (snd e) = fst e \<and> 0 < fst e \<and> children (snd e) = [])\<close>

text \<open>The pids that \<^const>\<open>build_tree\<close> appends to the record stored under \<open>k\<close>.\<close>

definition kids :: \<open>int \<Rightarrow> registry \<Rightarrow> int list\<close> where
  \<open>kids k reg = map fst (filter (\<lambda>e. ppid (snd e) = Some k \<and> k \<noteq> 0) reg)\<close>

text \<open>
  A field mapping whose \<^verbatim>\<open>ProcessId\<close> is absent, is no integer for \<^verbatim>\<open>int\<close>, or is an integer
  that is not positive.
\<close>

definition pid_rejected :: \<open>fields \<Rightarrow> bool\<close> where
  \<open>pid_rejected data =
     (case map_of data ''ProcessId'' of
        None \<Rightarrow> True
      | Some s \<Rightarrow> (case py_int s of None \<Rightarrow> True | Some n \<Rightarrow> n \<le> 0))\<close>

text \<open>The pairs of pid and parent pid of a registry: what it holds, whatever the order.\<close>

definition parent_links :: \<open>registry \<Rightarrow> (int \<times> int option) set\<close> where
  \<open>parent_links reg = (\<lambda>p. (pid p, ppid p)) ` snd ` set reg\<close>

section \<open>Example inputs\<close>

text \<open>
  A process creation event with a pid, a parent pid and a creation time, as an XML event
  and as a CSV row, and the record that either front end builds from such an event.
\<close>

definition creation :: \<open>string \<Rightarrow> string \<Rightarrow> string \<Rightarrow> xml_event\<close> where
  \<open>creation p pp ts =
     \<lparr>event_id = Some ''1'',
      ns_data = [(Some ''ProcessId'', Some p), (Some ''ParentProcessId'', Some pp)],
      plain_data = [], system_time = Some ts\<rparr>\<close>

definition csv_creation :: \<open>string \<Rightarrow> string \<Rightarrow> string \<Rightarrow> csv_row\<close> where
  \<open>csv_creation p pp ts =
     \<lparr>row_event_id = Some ''1'',
      row_payload = EventData [(Some ''ProcessId'', Some p), (Some ''ParentProcessId'', Some pp)],
      row_user_name = None, row_time_created = Some ts\<rparr>\<close>

definition proc :: \<open>int \<Rightarrow> int option \<Rightarrow> string \<Rightarrow> int list \<Rightarrow> ProcessInfo\<close> where
  \<open>proc p pp ts cs =
     \<lparr>pid = p, name = ''Unknown'', ppid = pp, command_line = [], current_directory = [],
      user = [], timestamp = ts, children = cs\<rparr>\<close>

text \<open>
  A log in which the processes 7 and 8 name each other as parent, beside a root 4 with one
  child 9, and the registry that \<^const>\<open>parse_evtx\<close> makes of it.
\<close>

definition cyclic_log :: \<open>evtx_unit list\<close> where
  \<open>cyclic_log =
     [Xml (creation ''4'' ''0'' ''2024-01-01T00:00:05''),
      Xml (creation ''7'' ''8'' ''2024-01-01T00:00:01''),
      Xml (creation ''8'' ''7'' ''2024-01-01T00:00:02''),
      Xml (creation ''9'' ''4'' ''2024-01-01T00:00:03'')]\<close>

definition cyclic_registry :: registry where
  \<open>cyclic_registry =
     [(4, proc 4 (Some 0) ''2024-01-01T00:00:05'' [9]),
      (7, proc 7 (Some 8) ''2024-01-01T00:00:01'' [8]),
      (8, proc 8 (Some 7) ''2024-01-01T00:00:02'' [7]),
      (9, proc 9 (Some 4) ''2024-01-01T00:00:03'' [])]\<close>

text \<open>A parent with three children, the second of them without a time stamp.\<close>

definition siblings_log :: \<open>evtx_unit list\<close> where
  \<open>siblings_log =
     [Xml (creation ''4'' ''0'' ''2024-01-01T00:00:00''),
      Xml (creation ''10'' ''4'' ''2024-01-01T00:00:02''),
      Xml (creation ''11'' ''4'' []),
      Xml (creation ''12'' ''4'' ''2024-01-01T00:00:05'')]\<close>

definition siblings_registry :: registry where
  \<open>siblings_registry =
     [(4, proc 4 (Some 0) ''2024-01-01T00:00:00'' [10, 11, 12]),
      (10, proc 10 (Some 4) ''2024-01-01T00:00:02'' []),
      (11, proc 11 (Some 4) [] []),
      (12, proc 12 (Some 4) ''2024-01-01T00:00:05'' [])]\<close>

text \<open>
  A log of \<open>n\<close> processes in one line of descent: the process 1 has the parent pid 0, and
  each process \<open>i + 1\<close> has the parent \<open>i\<close>.
\<close>

definition chain_unit :: \<open>nat \<Rightarrow> evtx_unit\<close> where
  \<open>chain_unit i = Xml (creation (str (int i)) (str (int i - 1)) [])\<close>

definition chain_log :: \<open>nat \<Rightarrow> evtx_unit list\<close> where
  \<open>chain_log n = map chain_unit [1..<Suc n]\<close>

text \<open>Three qualifying records, for either front end, and the registry of the first two.\<close>

definition three_units :: \<open>evtx_unit list\<close> where
  \<open>three_units =
     [Xml (creation ''4'' ''0'' ''2024-01-01T00:00:00''),
      Xml (creation ''10'' ''4'' ''2024-01-01T00:00:02''),
      Xml (creation ''12'' ''4'' ''2024-01-01T00:00:05'')]\<close>

definition three_rows :: \<open>csv_row list\<close> where
  \<open>three_rows =
     [csv_creation ''4'' ''0'' ''2024-01-01T00:00:00'',
      csv_creation ''10'' ''4'' ''2024-01-01T00:00:02'',
      csv_creation ''12'' ''4'' ''2024-01-01T00:00:05'']\<close>

definition two_registry :: registry where
  \<open>two_registry =
     [(4, proc 4 (Some 0) ''2024-01-01T00:00:00'' [10]),
      (10, proc 10 (Some 4) ''2024-01-01T00:00:02'' [])]\<close>

section \<open>Escaping\<close>

lemma replace_Nil: \<open>replace old new [] = []\<close>
  by (simp add: replace_def)

lemma replace_Cons:
  \<open>replace old new (c # t) = (if c = old then new else [c]) @ replace old new t\<close>
  by (simp add: replace_def)

lemma replace_append: \<open>replace old new (s @ t) = replace old new s @ replace old new t\<close>
  by (simp add: replace_def)

lemma esc_entity: \<open>esc t = concat (map entity t)\<close>
proof -
  have \<open>replace (CHR 0x22) ''&quot;''
          (replace CHR ''>'' ''&gt;''
            (replace CHR ''<'' ''&lt;''
              (replace CHR ''&'' ''&amp;'' t))) = concat (map entity t)\<close>
    by (induction t) (simp_all add: replace_Nil replace_Cons replace_append entity_def)
  then show ?thesis
    by (cases t) (simp_all add: esc_def)
qed

text \<open>
  Claim C1, as the code has it: \<^const>\<open>esc\<close> replaces each of the four characters
  \<^verbatim>\<open>&\<close>, \<^verbatim>\<open><\<close>, \<^verbatim>\<open>>\<close> and the double quote by its entity and copies every other
  character, the apostrophe included.  So the escaped value holds no raw \<^verbatim>\<open><\<close>, \<^verbatim>\<open>>\<close> or
  double quote, every \<^verbatim>\<open>&\<close> in it starts one of the four entities, and the apostrophes of
  the value are all still there.  \<^const>\<open>node_html\<close> passes the name, the command line, the
  directory and the user through \<^const>\<open>esc\<close>.
\<close>

theorem C1_esc_four_characters:
  \<open>esc t = concat (map entity t)
   \<and> CHR ''<'' \<notin> set (esc t) \<and> CHR ''>'' \<notin> set (esc t) \<and> CHR 0x22 \<notin> set (esc t)
   \<and> filter (\<lambda>c. c = CHR 0x27) (esc t) = filter (\<lambda>c. c = CHR 0x27) t\<close>
proof -
  have a: \<open>\<forall>c. CHR ''<'' \<notin> set (entity c) \<and> CHR ''>'' \<notin> set (entity c) \<and> CHR 0x22 \<notin> set (entity c)\<close>
    by (simp add: entity_def)
  have b: \<open>filter (\<lambda>c. c = CHR 0x27) (concat (map entity t)) = filter (\<lambda>c. c = CHR 0x27) t\<close>
    by (induction t) (simp_all add: entity_def)
  show ?thesis
    using a b by (auto simp add: esc_entity)
qed

text \<open>Claim C1, amended, on a value with an apostrophe between two reserved characters.\<close>

theorem C1_esc_four_characters_witness:
  \<open>esc [CHR ''a'', CHR ''<'', CHR 0x27, CHR ''&''] = ''a&lt;'' @ [CHR 0x27] @ ''&amp;''\<close>
  using C1_esc_four_characters [of \<open>[CHR ''a'', CHR ''<'', CHR 0x27, CHR ''&'']\<close>]
  by (simp add: entity_def)

text \<open>
  Claim C1 as written fails: the apostrophe is one of the five reserved characters, and
  \<^const>\<open>esc\<close> returns it raw.
\<close>

theorem C1_apostrophe_counterexample:
  \<open>esc [CHR 0x27] = [CHR 0x27] \<and> CHR 0x27 \<in> set (esc [CHR 0x27])\<close>
  by (simp add: esc_def replace_def)

section \<open>Insertion into the registry\<close>

lemma map_of_fold_insert:
  \<open>map_of (fold registry_insert recs reg) k =
     (case filter (\<lambda>p. pid p = k) recs of [] \<Rightarrow> map_of reg k | q # qs \<Rightarrow> Some (last (q # qs)))\<close>
proof (induction recs arbitrary: reg)
  case Nil
  then show ?case by simp
next
  case (Cons p recs)
  have \<open>map_of (fold registry_insert (p # recs) reg) k =
        (case filter (\<lambda>p. pid p = k) recs of
           [] \<Rightarrow> map_of (registry_insert p reg) k
         | q # qs \<Rightarrow> Some (last (q # qs)))\<close>
    using Cons.IH [of \<open>registry_insert p reg\<close>] by simp
  also have \<open>\<dots> = (case filter (\<lambda>p. pid p = k) (p # recs) of
                      [] \<Rightarrow> map_of reg k
                    | q # qs \<Rightarrow> Some (last (q # qs)))\<close>
    by (simp add: registry_insert_def update_conv' split: list.splits)
  finally show ?case .
qed

lemma distinct_fold_insert:
  \<open>distinct (map fst reg) \<Longrightarrow> distinct (map fst (fold registry_insert recs reg))\<close>
  by (induction recs arbitrary: reg) (simp_all add: registry_insert_def distinct_update)

lemma keys_fold_insert:
  \<open>fst ` set (fold registry_insert recs reg) = pid ` set recs \<union> fst ` set reg\<close>
  by (induction recs arbitrary: reg) (auto simp add: registry_insert_def dom_update)

text \<open>
  Claim C5: after any sequence of insertions into the empty registry, the registry has one
  entry for each pid that was inserted and no other, and the record under a pid is the last
  one inserted with that pid.
\<close>

theorem C5_last_write_wins:
  \<open>distinct (map fst (fold registry_insert recs []))
   \<and> fst ` set (fold registry_insert recs []) = pid ` set recs
   \<and> length (fold registry_insert recs []) = card (pid ` set recs)
   \<and> (\<forall>k. map_of (fold registry_insert recs []) k =
            (case filter (\<lambda>p. pid p = k) recs of [] \<Rightarrow> None | q # qs \<Rightarrow> Some (last (q # qs))))\<close>
proof -
  let ?R = \<open>fold registry_insert recs []\<close>
  have d: \<open>distinct (map fst ?R)\<close>
    by (rule distinct_fold_insert) simp
  have k: \<open>fst ` set ?R = pid ` set recs\<close>
    by (simp add: keys_fold_insert)
  have \<open>length ?R = card (set (map fst ?R))\<close>
    using d distinct_card [of \<open>map fst ?R\<close>] by simp
  then have l: \<open>length ?R = card (pid ` set recs)\<close>
    using k by simp
  show ?thesis
    using d k l by (simp add: map_of_fold_insert split: list.splits)
qed

text \<open>Claim C5 on three insertions, the third with the pid of the first.\<close>

theorem C5_last_write_wins_witness:
  \<open>fold registry_insert [proc 4 None ''a'' [], proc 5 None ''b'' [], proc 4 (Some 5) ''c'' []] []
     = [(4, proc 4 (Some 5) ''c'' []), (5, proc 5 None ''b'' [])]
   \<and> map_of (fold registry_insert
               [proc 4 None ''a'' [], proc 5 None ''b'' [], proc 4 (Some 5) ''c'' []] []) 4
     = Some (proc 4 (Some 5) ''c'' [])\<close>
proof -
  have \<open>fold registry_insert [proc 4 None ''a'' [], proc 5 None ''b'' [], proc 4 (Some 5) ''c'' []] []
     = [(4, proc 4 (Some 5) ''c'' []), (5, proc 5 None ''b'' [])]\<close>
    by (simp add: registry_insert_def proc_def)
  then show ?thesis
    using C5_last_write_wins
      [of \<open>[proc 4 None ''a'' [], proc 5 None ''b'' [], proc 4 (Some 5) ''c'' []]\<close>]
    by (simp add: proc_def)
qed

text \<open>Both front ends change the registry by \<^const>\<open>registry_insert\<close> only.\<close>

lemma evtx_event_insert:
  \<open>processes (evtx_event u st) = processes st
   \<or> (\<exists>p. processes (evtx_event u st) = registry_insert p (processes st))\<close>
  by (auto simp add: evtx_event_def extract_process_data_def Let_def
      split: evtx_unit.splits sum.splits)

lemma csv_event_insert:
  \<open>processes (csv_event row st) = processes st
   \<or> (\<exists>p. processes (csv_event row st) = registry_insert p (processes st))\<close>
  by (auto simp add: csv_event_def extract_process_from_row_def split: sum.splits)

section \<open>Rejected units and the counters\<close>

text \<open>
  A unit with a rejected \<^verbatim>\<open>ProcessId\<close> never changes the registry.  The CSV front end
  leaves the whole parser as it was; the EVTX front end adds one to \<^const>\<open>process_events\<close>.
\<close>

lemma evtx_rejected:
  assumes \<open>pid_rejected (event_data root)\<close>
  shows \<open>processes (extract_process_data root st) = processes st\<close>
    and \<open>event_id root = Some ''1'' \<Longrightarrow>
         process_events (evtx_event (Xml root) st) = process_events st + 1\<close>
proof -
  have r: \<open>\<exists>e. evtx_record root = Inl e\<close>
    using assms
    by (auto simp add: pid_rejected_def evtx_record_def process_id_def Let_def split: option.splits)
  then show \<open>processes (extract_process_data root st) = processes st\<close>
    by (auto simp add: extract_process_data_def)
  show \<open>process_events (evtx_event (Xml root) st) = process_events st + 1\<close>
    if \<open>event_id root = Some ''1''\<close>
    using r that by (auto simp add: evtx_event_def extract_process_data_def Let_def)
qed

lemma csv_rejected:
  assumes \<open>row_payload row = EventData items\<close> \<open>pid_rejected (collect_items items)\<close>
  shows \<open>csv_event row st = st\<close>
proof -
  have \<open>\<exists>e. csv_record row = Inl e\<close>
    using assms
    by (auto simp add: pid_rejected_def csv_record_def process_id_def Let_def split: option.splits)
  then show ?thesis
    by (auto simp add: csv_event_def extract_process_from_row_def)
qed

text \<open>
  Claim C2 does not hold of \<^verbatim>\<open>parse_evtx\<close>: for three events of id 1, the first without a
  \<^verbatim>\<open>ProcessId\<close>, the second with the text \<^verbatim>\<open>abc\<close> and the third with \<^verbatim>\<open>0\<close>, no record is
  stored, and \<^const>\<open>process_events\<close> is 3, as \<^const>\<open>total_events\<close> is.  \<^verbatim>\<open>parse_csv\<close> on the
  same three rows counts none of them.
\<close>

theorem C2_evtx_counts_rejected_units:
  \<open>parse_evtx None
      [Xml \<lparr>event_id = Some ''1'', ns_data = [], plain_data = [], system_time = None\<rparr>,
       Xml \<lparr>event_id = Some ''1'', ns_data = [(Some ''ProcessId'', Some ''abc'')],
            plain_data = [], system_time = None\<rparr>,
       Xml \<lparr>event_id = Some ''1'', ns_data = [(Some ''ProcessId'', Some ''0'')],
            plain_data = [], system_time = None\<rparr>]
      parser_init
    = \<lparr>processes = [], total_events = 3, process_events = 3\<rparr>
   \<and> parse_csv None
      [\<lparr>row_event_id = Some ''1'', row_payload = EventData [],
        row_user_name = None, row_time_created = None\<rparr>,
       \<lparr>row_event_id = Some ''1'', row_payload = EventData [(Some ''ProcessId'', Some ''abc'')],
        row_user_name = None, row_time_created = None\<rparr>,
       \<lparr>row_event_id = Some ''1'', row_payload = EventData [(Some ''ProcessId'', Some ''0'')],
        row_user_name = None, row_time_created = None\<rparr>]
      parser_init
    = \<lparr>processes = [], total_events = 3, process_events = 0\<rparr>\<close>
  by code_simp

section \<open>The parent pid of a record\<close>

lemma update_nonempty_values:
  \<open>\<forall>e \<in> set d. snd e \<noteq> [] \<Longrightarrow> v \<noteq> [] \<Longrightarrow> \<forall>e \<in> set (AList.update k v d). snd e \<noteq> []\<close>
  by (induction d) auto

lemma collect_data_nonempty:
  \<open>\<forall>e \<in> set d. snd e \<noteq> [] \<Longrightarrow> \<forall>e \<in> set (collect_data elems d). snd e \<noteq> []\<close>
proof (induction elems arbitrary: d)
  case Nil
  then show ?case by (simp add: collect_data_def)
next
  case (Cons x elems)
  obtain n t where x: \<open>x = (n, t)\<close> by (cases x)
  let ?d = \<open>case (n, t) of
              (Some nm, Some tx) \<Rightarrow> if nm \<noteq> [] \<and> tx \<noteq> [] then AList.update nm tx d else d
            | _ \<Rightarrow> d\<close>
  have \<open>\<forall>e \<in> set ?d. snd e \<noteq> []\<close>
  proof (cases n)
    case None
    then show ?thesis
      using Cons.prems by simp
  next
    case n: (Some nm)
    show ?thesis
    proof (cases t)
      case None
      then show ?thesis
        using Cons.prems n by simp
    next
      case (Some tx)
      then show ?thesis
        using Cons.prems n update_nonempty_values [OF Cons.prems, of tx nm] by simp
    qed
  qed
  then have \<open>\<forall>e \<in> set (collect_data elems ?d). snd e \<noteq> []\<close>
    by (rule Cons.IH)
  then show ?case
    by (simp add: collect_data_def x)
qed

lemma event_data_nonempty: \<open>map_of (event_data root) k \<noteq> Some []\<close>
proof -
  have \<open>\<forall>e \<in> set (event_data root). snd e \<noteq> []\<close>
    using collect_data_nonempty [of \<open>[]\<close>] by (simp add: event_data_def Let_def)
  then show ?thesis
    by (metis map_of_SomeD snd_conv)
qed

lemma evtx_record_ppid:
  \<open>evtx_record root = Inr p \<Longrightarrow> parent_process_id (event_data root) = Inr (ppid p)\<close>
  by (auto simp add: evtx_record_def ProcessInfo_init_def Let_def split: sum.splits if_splits)

lemma csv_record_ppid:
  \<open>csv_record row = Inr p \<Longrightarrow> row_payload row = EventData items \<Longrightarrow>
   parent_process_id (collect_items items) = Inr (ppid p)\<close>
  by (auto simp add: csv_record_def ProcessInfo_init_def Let_def split: sum.splits if_splits)

lemma parent_process_id_Inr:
  assumes \<open>parent_process_id data = Inr pp\<close>
  shows \<open>map_of data ''ParentProcessId'' = None \<Longrightarrow> pp = None\<close>
    and \<open>map_of data ''ParentProcessId'' = Some [] \<Longrightarrow> pp = None\<close>
    and \<open>map_of data ''ParentProcessId'' = Some s \<Longrightarrow> s \<noteq> [] \<Longrightarrow> pp = py_int s \<and> py_int s \<noteq> None\<close>
proof -
  show \<open>pp = None\<close> if \<open>map_of data ''ParentProcessId'' = None\<close>
    using assms that by (simp add: parent_process_id_def)
  show \<open>pp = None\<close> if \<open>map_of data ''ParentProcessId'' = Some []\<close>
    using assms that by (simp add: parent_process_id_def)
  show \<open>pp = py_int s \<and> py_int s \<noteq> None\<close>
    if s: \<open>map_of data ''ParentProcessId'' = Some s\<close> \<open>s \<noteq> []\<close>
  proof (cases \<open>py_int s\<close>)
    case None
    then have \<open>parent_process_id data = Inl ValueError\<close>
      using s by (simp add: parent_process_id_def)
    then show ?thesis
      using assms by simp
  next
    case (Some n)
    then have \<open>parent_process_id data = Inr (Some n)\<close>
      using s by (simp add: parent_process_id_def)
    then have \<open>pp = Some n\<close>
      using assms by simp
    then show ?thesis
      using Some by simp
  qed
qed

text \<open>
  Claim C3, as the code has it: the \<^const>\<open>ppid\<close> of a stored record is absent exactly when
  the \<^verbatim>\<open>ParentProcessId\<close> field is missing or has an empty text (a field without text never
  reaches the field mapping of the EVTX front end).  Any other text is stored as the integer
  that \<^verbatim>\<open>int\<close> reads from it, and so the text \<^verbatim>\<open>0\<close> as the integer 0.
\<close>

theorem C3_parent_pid_absent_iff_missing_or_empty:
  \<open>(evtx_record root = Inr p \<longrightarrow>
      (ppid p = None \<longleftrightarrow> map_of (event_data root) ''ParentProcessId'' = None)
      \<and> (\<forall>s. map_of (event_data root) ''ParentProcessId'' = Some s \<longrightarrow> ppid p = py_int s))
   \<and> (csv_record row = Inr q \<and> row_payload row = EventData items \<longrightarrow>
      (ppid q = None \<longleftrightarrow> map_of (collect_items items) ''ParentProcessId'' = None
                       \<or> map_of (collect_items items) ''ParentProcessId'' = Some [])
      \<and> (\<forall>s. map_of (collect_items items) ''ParentProcessId'' = Some s \<and> s \<noteq> [] \<longrightarrow>
             ppid q = py_int s))\<close>
proof (intro conjI impI allI)
  assume \<open>evtx_record root = Inr p\<close>
  then have a: \<open>parent_process_id (event_data root) = Inr (ppid p)\<close>
    by (rule evtx_record_ppid)
  show \<open>ppid p = None \<longleftrightarrow> map_of (event_data root) ''ParentProcessId'' = None\<close>
  proof (cases \<open>map_of (event_data root) ''ParentProcessId''\<close>)
    case None
    then show ?thesis
      using parent_process_id_Inr(1) [OF a] by simp
  next
    case (Some s)
    then have \<open>s \<noteq> []\<close>
      using event_data_nonempty [of root] by auto
    then show ?thesis
      using parent_process_id_Inr(3) [OF a Some] Some by simp
  qed
  fix s
  assume s: \<open>map_of (event_data root) ''ParentProcessId'' = Some s\<close>
  then have \<open>s \<noteq> []\<close>
    using event_data_nonempty [of root] by auto
  then show \<open>ppid p = py_int s\<close>
    using parent_process_id_Inr(3) [OF a s] by simp
next
  assume \<open>csv_record row = Inr q \<and> row_payload row = EventData items\<close>
  then have a: \<open>parent_process_id (collect_items items) = Inr (ppid q)\<close>
    using csv_record_ppid by blast
  show \<open>ppid q = None \<longleftrightarrow> map_of (collect_items items) ''ParentProcessId'' = None
                       \<or> map_of (collect_items items) ''ParentProcessId'' = Some []\<close>
  proof (cases \<open>map_of (collect_items items) ''ParentProcessId''\<close>)
    case None
    then show ?thesis
      using parent_process_id_Inr(1) [OF a] by simp
  next
    case (Some s)
    then show ?thesis
      using parent_process_id_Inr(2) [OF a] parent_process_id_Inr(3) [OF a, of s]
      by (cases \<open>s = []\<close>) auto
  qed
  fix s
  assume \<open>map_of (collect_items items) ''ParentProcessId'' = Some s \<and> s \<noteq> []\<close>
  then show \<open>ppid q = py_int s\<close>
    using parent_process_id_Inr(3) [OF a, of s] by simp
qed

text \<open>
  Claim C3, amended, on an XML event with the parent pid \<^verbatim>\<open>0\<close> and a CSV row with an empty
  parent pid.
\<close>

theorem C3_parent_pid_absent_iff_missing_or_empty_witness:
  \<open>evtx_record (creation ''4'' ''0'' []) = Inr (proc 4 (Some 0) [] [])
   \<and> csv_record (csv_creation ''4'' [] []) = Inr (proc 4 None [] [])
   \<and> row_payload (csv_creation ''4'' [] [])
       = EventData [(Some ''ProcessId'', Some ''4''), (Some ''ParentProcessId'', Some [])]
   \<and> ppid (proc 4 (Some 0) [] []) = py_int ''0''
   \<and> map_of (collect_items [(Some ''ProcessId'', Some ''4''), (Some ''ParentProcessId'', Some [])])
         ''ParentProcessId'' = Some []\<close>
proof -
  let ?items = \<open>[(Some ''ProcessId'', Some ''4''), (Some ''ParentProcessId'', Some [])]\<close>
  have a: \<open>evtx_record (creation ''4'' ''0'' []) = Inr (proc 4 (Some 0) [] [])\<close>
    by code_simp
  have b: \<open>csv_record (csv_creation ''4'' [] []) = Inr (proc 4 None [] [])\<close>
    by code_simp
  have c: \<open>row_payload (csv_creation ''4'' [] []) = EventData ?items\<close>
    by (simp add: csv_creation_def)
  have d: \<open>map_of (event_data (creation ''4'' ''0'' [])) ''ParentProcessId'' = Some ''0''\<close>
    by code_simp
  have e: \<open>ppid (proc 4 None [] []) = None\<close>
    by (simp add: proc_def)
  have f: \<open>map_of (collect_items ?items) ''ParentProcessId'' = Some []\<close>
    by code_simp
  show ?thesis
    using C3_parent_pid_absent_iff_missing_or_empty
      [of \<open>creation ''4'' ''0'' []\<close> \<open>proc 4 (Some 0) [] []\<close>
          \<open>csv_creation ''4'' [] []\<close> \<open>proc 4 None [] []\<close> ?items]
      a b c d e f
    by auto
qed

text \<open>
  Claim C3 as written fails: an event whose \<^verbatim>\<open>ParentProcessId\<close> is \<^verbatim>\<open>0\<close> gives a record whose
  \<^const>\<open>ppid\<close> is the integer 0, not an absent one, in both front ends.
\<close>

theorem C3_zero_parent_counterexample:
  \<open>map_of (event_data (creation ''4'' ''0'' [])) ''ParentProcessId'' = Some ''0''
   \<and> evtx_record (creation ''4'' ''0'' []) = Inr (proc 4 (Some 0) [] [])
   \<and> csv_record (csv_creation ''4'' ''0'' []) = Inr (proc 4 (Some 0) [] [])
   \<and> ppid (proc 4 (Some 0) [] []) \<noteq> None\<close>
  by code_simp

section \<open>The cap on the number of events\<close>

lemma evtx_loop_cap_zero: \<open>evtx_loop (Some 0) n us st = evtx_loop None n us st\<close>
  by (induction us arbitrary: n st) (simp_all add: cap_reached_def Let_def)

lemma csv_loop_cap_zero: \<open>csv_loop (Some 0) rows st = csv_loop None rows st\<close>
  by (induction rows arbitrary: st) (simp_all add: cap_reached_def Let_def)

lemma total_events_evtx_event: \<open>total_events (evtx_event u st) = total_events st\<close>
  by (simp add: evtx_event_def extract_process_data_def Let_def
      split: evtx_unit.splits sum.splits)

lemma total_events_csv_event: \<open>total_events (csv_event row st) = total_events st\<close>
  by (simp add: csv_event_def extract_process_from_row_def split: sum.splits)

lemma total_events_evtx_loop:
  \<open>total_events (evtx_loop None n us st) = (if us = [] then total_events st else n + length us)\<close>
proof (induction us arbitrary: n st)
  case Nil
  then show ?case by simp
next
  case (Cons u us)
  then show ?case
    by (simp add: cap_reached_def Let_def total_events_evtx_event)
qed

lemma total_events_csv_loop:
  \<open>total_events (csv_loop None rows st) = total_events st + length rows\<close>
proof (induction rows arbitrary: st)
  case Nil
  then show ?case by simp
next
  case (Cons row rows)
  then show ?case
    by (simp add: cap_reached_def Let_def total_events_csv_event)
qed

text \<open>
  Claim C10: with a cap of 0 both parsers do what they do without a cap, and count every
  unit of the input.
\<close>

theorem C10_cap_zero_disables:
  \<open>parse_evtx (Some 0) units st = parse_evtx None units st
   \<and> parse_csv (Some 0) rows st = parse_csv None rows st
   \<and> total_events (parse_evtx (Some 0) units parser_init) = length units
   \<and> total_events (parse_csv (Some 0) rows parser_init) = length rows\<close>
  by (simp add: parse_evtx_def parse_csv_def evtx_loop_cap_zero csv_loop_cap_zero Let_def
      total_events_evtx_loop total_events_csv_loop parser_init_def)

lemma evtx_loop_cap:
  \<open>0 < m \<Longrightarrow>
   \<exists>t. evtx_loop (Some m) n us st = (evtx_loop None n (take (nat m - n) us) st)\<lparr>total_events := t\<rparr>\<close>
proof (induction us arbitrary: n st)
  case Nil
  have \<open>st = st\<lparr>total_events := total_events st\<rparr>\<close> by simp
  then show ?case by (metis evtx_loop.simps(1) take_Nil)
next
  case (Cons u us)
  show ?case
  proof (cases \<open>int (n + 1) > m\<close>)
    case True
    then have \<open>nat m - n = 0\<close> by simp
    then show ?thesis
      using True Cons.prems by (auto simp add: cap_reached_def Let_def)
  next
    case False
    then have \<open>nat m - n = Suc (nat m - (n + 1))\<close> by linarith
    then show ?thesis
      using False Cons.IH [OF Cons.prems, of \<open>n + 1\<close>] by (simp add: cap_reached_def Let_def)
  qed
qed

lemma csv_loop_cap:
  \<open>0 < m \<Longrightarrow>
   \<exists>t. csv_loop (Some m) rows st =
        (csv_loop None (take (nat m - total_events st) rows) st)\<lparr>total_events := t\<rparr>\<close>
proof (induction rows arbitrary: st)
  case Nil
  have \<open>st = st\<lparr>total_events := total_events st\<rparr>\<close> by simp
  then show ?case by (metis csv_loop.simps(1) take_Nil)
next
  case (Cons row rows)
  let ?st = \<open>st\<lparr>total_events := total_events st + 1\<rparr>\<close>
  show ?case
  proof (cases \<open>int (total_events st + 1) > m\<close>)
    case True
    then have \<open>nat m - total_events st = 0\<close> by simp
    then show ?thesis
      using True Cons.prems by (auto simp add: cap_reached_def Let_def)
  next
    case False
    then have \<open>nat m - total_events st = Suc (nat m - (total_events st + 1))\<close> by linarith
    then show ?thesis
      using False Cons.IH [OF Cons.prems, of \<open>csv_event row ?st\<close>]
      by (simp add: cap_reached_def Let_def total_events_csv_event)
  qed
qed

text \<open>
  Claim C8: with a cap \<open>m > 0\<close>, a run ends with the registry and the count of process
  events of a run without a cap on the first \<open>m\<close> units: the records of these units are
  kept and linked, and no later unit is looked at.
\<close>

theorem C8_cap_keeps_first_records:
  assumes \<open>0 < m\<close>
  shows \<open>processes (parse_evtx (Some m) units parser_init) =
           processes (parse_evtx None (take (nat m) units) parser_init)
         \<and> process_events (parse_evtx (Some m) units parser_init) =
           process_events (parse_evtx None (take (nat m) units) parser_init)
         \<and> processes (parse_csv (Some m) rows parser_init) =
           processes (parse_csv None (take (nat m) rows) parser_init)
         \<and> process_events (parse_csv (Some m) rows parser_init) =
           process_events (parse_csv None (take (nat m) rows) parser_init)\<close>
proof -
  obtain t where \<open>evtx_loop (Some m) 0 units parser_init =
      (evtx_loop None 0 (take (nat m - 0) units) parser_init)\<lparr>total_events := t\<rparr>\<close>
    using evtx_loop_cap [OF assms] by blast
  moreover obtain t' where \<open>csv_loop (Some m) rows parser_init =
      (csv_loop None (take (nat m - total_events parser_init) rows) parser_init)\<lparr>total_events := t'\<rparr>\<close>
    using csv_loop_cap [OF assms] by blast
  ultimately show ?thesis
    by (simp add: parse_evtx_def parse_csv_def Let_def parser_init_def)
qed

section \<open>The registry of a run\<close>

lemma evtx_record_fresh:
  \<open>evtx_record root = Inr p \<Longrightarrow> 0 < pid p \<and> children p = []\<close>
  by (auto simp add: evtx_record_def ProcessInfo_init_def Let_def split: sum.splits if_splits)

lemma csv_record_fresh:
  \<open>csv_record row = Inr p \<Longrightarrow> 0 < pid p \<and> children p = []\<close>
  by (auto simp add: csv_record_def ProcessInfo_init_def Let_def
      split: sum.splits if_splits csv_payload.splits)

lemma registry_inv_insert:
  assumes \<open>registry_inv reg\<close> \<open>0 < pid p\<close> \<open>children p = []\<close>
  shows \<open>registry_inv (registry_insert p reg)\<close>
proof -
  have d: \<open>distinct (map fst (AList.update (pid p) p reg))\<close>
    using assms(1) by (simp add: registry_inv_def distinct_update)
  have s: \<open>set (AList.update (pid p) p reg) \<subseteq> insert (pid p, p) (set reg)\<close>
    by (induction reg) auto
  show ?thesis
    unfolding registry_inv_def registry_insert_def
    using d s assms by (auto simp add: registry_inv_def)
qed

lemma registry_inv_evtx_event:
  \<open>registry_inv (processes st) \<Longrightarrow> registry_inv (processes (evtx_event u st))\<close>
  by (auto simp add: evtx_event_def extract_process_data_def Let_def registry_inv_insert
      dest: evtx_record_fresh split: evtx_unit.splits sum.splits)

lemma registry_inv_evtx_loop:
  \<open>registry_inv (processes st) \<Longrightarrow> registry_inv (processes (evtx_loop m n us st))\<close>
proof (induction us arbitrary: n st)
  case Nil
  then show ?case by simp
next
  case (Cons u us)
  have \<open>registry_inv (processes (evtx_event u (st\<lparr>total_events := n + 1\<rparr>)))\<close>
    using Cons.prems by (intro registry_inv_evtx_event) simp
  then show ?case
    using Cons.prems Cons.IH by (simp add: Let_def)
qed

lemma registry_inv_csv_event:
  \<open>registry_inv (processes st) \<Longrightarrow> registry_inv (processes (csv_event row st))\<close>
  by (auto simp add: csv_event_def extract_process_from_row_def registry_inv_insert
      dest: csv_record_fresh split: sum.splits)

lemma registry_inv_csv_loop:
  \<open>registry_inv (processes st) \<Longrightarrow> registry_inv (processes (csv_loop m rows st))\<close>
proof (induction rows arbitrary: st)
  case Nil
  then show ?case by simp
next
  case (Cons row rows)
  have \<open>registry_inv (processes (csv_event row (st\<lparr>total_events := total_events st + 1\<rparr>)))\<close>
    using Cons.prems by (intro registry_inv_csv_event) simp
  then show ?case
    using Cons.prems Cons.IH by (simp add: Let_def)
qed

lemma registry_inv_init: \<open>registry_inv (processes parser_init)\<close>
  by (simp add: registry_inv_def parser_init_def)

lemma final_registry_built:
  \<open>final_registry reg \<Longrightarrow> \<exists>reg0. registry_inv reg0 \<and> reg = build_tree reg0\<close>
proof (induction rule: final_registry.induct)
  case (evtx max_events units)
  show ?case
    using registry_inv_evtx_loop [OF registry_inv_init, of max_events 0 units]
    by (auto simp add: parse_evtx_def Let_def)
next
  case (csv max_events rows)
  show ?case
    using registry_inv_csv_loop [OF registry_inv_init, of max_events rows]
    by (auto simp add: parse_csv_def Let_def)
qed

text \<open>
  With one entry for each key, \<^const>\<open>build_tree\<close> appends to the record under \<open>k\<close> the keys
  of the entries whose parent pid is \<open>k\<close>, in the order of the registry.
\<close>

lemma map_entry_distinct:
  \<open>distinct (map fst r) \<Longrightarrow>
   AList.map_entry k f r = map (\<lambda>e. (fst e, if fst e = k then f (snd e) else snd e)) r\<close>
proof (induction r)
  case Nil
  then show ?case by simp
next
  case (Cons e r)
  have \<open>fst e = k \<Longrightarrow> map (\<lambda>e. (fst e, if fst e = k then f (snd e) else snd e)) r = r\<close>
    using Cons.prems by (intro map_idI) (auto simp add: rev_image_eqI)
  then show ?case
    using Cons by auto
qed

lemma link_distinct:
  assumes \<open>distinct (map fst r)\<close>
  shows \<open>link e r =
         map (\<lambda>x. (fst x, if ppid (snd e) = Some (fst x) \<and> fst x \<noteq> 0
                           then (snd x)\<lparr>children := children (snd x) @ [fst e]\<rparr> else snd x)) r\<close>
proof (cases \<open>ppid (snd e)\<close>)
  case None
  then show ?thesis by (simp add: link_def map_idI)
next
  case (Some pp)
  show ?thesis
  proof (cases \<open>pp \<noteq> 0 \<and> pp \<in> fst ` set r\<close>)
    case True
    then show ?thesis
      using Some assms by (simp add: link_def map_entry_distinct) 
  next
    case False
    have \<open>map (\<lambda>x. (fst x, if ppid (snd e) = Some (fst x) \<and> fst x \<noteq> 0
                           then (snd x)\<lparr>children := children (snd x) @ [fst e]\<rparr> else snd x)) r = r\<close>
      using False Some by (intro map_idI) auto
    then show ?thesis
      using False Some by (auto simp add: link_def)
  qed
qed

lemma fold_link:
  \<open>distinct (map fst r) \<Longrightarrow>
   fold link xs r = map (\<lambda>x. (fst x, (snd x)\<lparr>children := children (snd x) @ kids (fst x) xs\<rparr>)) r\<close>
proof (induction xs arbitrary: r)
  case Nil
  then show ?case by (simp add: kids_def)
next
  case (Cons e xs)
  let ?g = \<open>\<lambda>x. (fst x, if ppid (snd e) = Some (fst x) \<and> fst x \<noteq> 0
                           then (snd x)\<lparr>children := children (snd x) @ [fst e]\<rparr> else snd x)\<close>
  have l: \<open>link e r = map ?g r\<close>
    using Cons.prems by (rule link_distinct)
  have d: \<open>distinct (map fst (map ?g r))\<close>
    using Cons.prems by (simp add: comp_def)
  show ?case
    using Cons.IH [OF d] by (simp add: l kids_def comp_def)
qed

lemma build_tree_map:
  \<open>distinct (map fst reg) \<Longrightarrow>
   build_tree reg = map (\<lambda>x. (fst x, (snd x)\<lparr>children := children (snd x) @ kids (fst x) reg\<rparr>)) reg\<close>
  by (simp add: build_tree_def fold_link)

lemma map_filter_lookup:
  \<open>\<forall>x \<in> set xs. f (fst x) = Some (snd x) \<Longrightarrow> List.map_filter f (map fst xs) = map snd xs\<close>
  by (induction xs) (simp_all add: map_filter_simps)

lemma map_filter_map_of:
  assumes \<open>distinct (map fst r)\<close>
  shows \<open>List.map_filter (map_of r) (map fst (filter P r)) = map snd (filter P r)\<close>
proof (rule map_filter_lookup)
  show \<open>\<forall>x \<in> set (filter P r). map_of r (fst x) = Some (snd x)\<close>
    using assms by auto
qed

lemma final_keys: \<open>final_registry reg \<Longrightarrow> distinct (map fst reg)\<close>
proof -
  assume \<open>final_registry reg\<close>
  then obtain reg0 where r: \<open>registry_inv reg0\<close> \<open>reg = build_tree reg0\<close>
    using final_registry_built by blast
  then show ?thesis
    by (simp add: build_tree_map registry_inv_def comp_def)
qed

lemma final_pid:
  assumes \<open>final_registry reg\<close> \<open>e \<in> set reg\<close>
  shows \<open>pid (snd e) = fst e \<and> 0 < fst e\<close>
proof -
  obtain reg0 where r: \<open>registry_inv reg0\<close> \<open>reg = build_tree reg0\<close>
    using assms(1) final_registry_built by blast
  then show ?thesis
    using assms(2) by (auto simp add: build_tree_map registry_inv_def)
qed

lemma final_children:
  assumes \<open>final_registry reg\<close> \<open>e \<in> set reg\<close>
  shows \<open>children (snd e) = map fst (filter (\<lambda>x. ppid (snd x) = Some (fst e)) reg)\<close>
proof -
  obtain reg0 where r: \<open>registry_inv reg0\<close> \<open>reg = build_tree reg0\<close>
    using assms(1) final_registry_built by blast
  let ?g = \<open>\<lambda>x. (fst x, (snd x)\<lparr>children := children (snd x) @ kids (fst x) reg0\<rparr>)\<close>
  have m: \<open>reg = map ?g reg0\<close>
    using r by (simp add: build_tree_map registry_inv_def)
  then obtain e0 where e0: \<open>e0 \<in> set reg0\<close> \<open>e = ?g e0\<close>
    using assms(2) by auto
  have \<open>children (snd e) = kids (fst e) reg0\<close>
    using e0 r(1) by (auto simp add: registry_inv_def)
  also have \<open>\<dots> = map fst (filter (\<lambda>x. ppid (snd x) = Some (fst e)) reg0)\<close>
    using e0 r(1) by (auto simp add: kids_def registry_inv_def)
  also have \<open>\<dots> = map fst (filter (\<lambda>x. ppid (snd x) = Some (fst e)) reg)\<close>
    by (simp add: m filter_map comp_def)
  finally show ?thesis .
qed

lemma final_sorted_children:
  assumes \<open>final_registry reg\<close> \<open>e \<in> set reg\<close>
  shows \<open>sorted_children reg (snd e) =
         sort_key timestamp (filter (\<lambda>q. ppid q = Some (fst e)) (map snd reg))\<close>
proof -
  have \<open>List.map_filter (map_of reg) (children (snd e)) =
        map snd (filter (\<lambda>x. ppid (snd x) = Some (fst e)) reg)\<close>
    using final_children [OF assms] map_filter_map_of [OF final_keys [OF assms(1)]] by simp
  then show ?thesis
    by (simp add: sorted_children_def filter_map comp_def)
qed

lemma final_value:
  assumes \<open>final_registry reg\<close> \<open>p \<in> snd ` set reg\<close>
  shows \<open>(pid p, p) \<in> set reg\<close>
  using assms final_pid by fastforce

lemma final_key:
  assumes \<open>final_registry reg\<close> \<open>p \<in> snd ` set reg\<close>
  shows \<open>pid p \<in> fst ` set reg\<close>
proof -
  have \<open>fst (pid p, p) \<in> fst ` set reg\<close>
    using final_value [OF assms] by (rule imageI)
  then show ?thesis by simp
qed

lemma final_same_pid:
  assumes \<open>final_registry reg\<close> \<open>p \<in> snd ` set reg\<close> \<open>q \<in> snd ` set reg\<close> \<open>pid p = pid q\<close>
  shows \<open>p = q\<close>
proof -
  have \<open>(pid p, p) \<in> set reg\<close> \<open>(pid p, q) \<in> set reg\<close>
    using final_value [OF assms(1,2)] final_value [OF assms(1,3)] assms(4) by simp_all
  then show ?thesis
    using final_keys [OF assms(1)] by (meson eq_key_imp_eq_value)
qed

lemma final_keys_pids:
  assumes \<open>final_registry reg\<close>
  shows \<open>fst ` set reg = pid ` snd ` set reg\<close>
proof -
  have \<open>\<forall>e \<in> set reg. pid (snd e) = fst e\<close>
    using final_pid [OF assms] by blast
  then show ?thesis
    by (force simp add: image_iff)
qed

lemma set_sorted_children:
  assumes \<open>final_registry reg\<close> \<open>p \<in> snd ` set reg\<close>
  shows \<open>set (sorted_children reg p) = {q \<in> snd ` set reg. ppid q = Some (pid p)}\<close>
  using final_sorted_children [OF assms(1) final_value [OF assms]] by auto

lemma set_roots: \<open>set (get_root_processes reg) = {p \<in> snd ` set reg. is_root reg p}\<close>
  by (auto simp add: get_root_processes_def)

text \<open>The example logs and their registries.\<close>

lemma cyclic_run: \<open>processes (parse_evtx None cyclic_log parser_init) = cyclic_registry\<close>
  by code_simp

lemma cyclic_final: \<open>final_registry cyclic_registry\<close>
  using final_registry.evtx [of None cyclic_log] by (simp add: cyclic_run)

lemma siblings_run: \<open>processes (parse_evtx None siblings_log parser_init) = siblings_registry\<close>
  by code_simp

lemma siblings_final: \<open>final_registry siblings_registry\<close>
  using final_registry.evtx [of None siblings_log] by (simp add: siblings_run)

text \<open>
  Claim C10 on the log with a cycle and on three CSV rows, with the cap 0.
\<close>

theorem C10_cap_zero_disables_witness:
  \<open>processes (parse_evtx (Some 0) cyclic_log parser_init) = cyclic_registry
   \<and> total_events (parse_evtx (Some 0) cyclic_log parser_init) = 4
   \<and> total_events (parse_csv (Some 0) three_rows parser_init) = 3\<close>
proof -
  note t = C10_cap_zero_disables [of cyclic_log parser_init three_rows]
  have e1: \<open>parse_evtx (Some 0) cyclic_log parser_init = parse_evtx None cyclic_log parser_init\<close>
    using t by (rule conjunct1)
  have e3: \<open>total_events (parse_evtx (Some 0) cyclic_log parser_init) = length cyclic_log\<close>
    using t by blast
  have e4: \<open>total_events (parse_csv (Some 0) three_rows parser_init) = length three_rows\<close>
    using t by blast
  have p: \<open>processes (parse_evtx (Some 0) cyclic_log parser_init) = cyclic_registry\<close>
    unfolding e1 by (rule cyclic_run)
  have l: \<open>length cyclic_log = 4\<close> \<open>length three_rows = 3\<close>
    by (simp_all add: cyclic_log_def three_rows_def)
  show ?thesis
    by (simp add: p e3 e4 l)
qed

text \<open>
  Claim C8 on three qualifying records and the cap 2, in both front ends: the registry holds
  the first two, the pid 12 of the third is not in it, and the forest is the root 4 with its
  child 10.
\<close>

theorem C8_cap_keeps_first_records_witness:
  \<open>(0::int) < 2
   \<and> processes (parse_evtx (Some 2) three_units parser_init) = two_registry
   \<and> processes (parse_csv (Some 2) three_rows parser_init) = two_registry
   \<and> map_of two_registry 12 = None
   \<and> map pid (get_root_processes two_registry) = [4]
   \<and> sorted_children two_registry (proc 4 (Some 0) ''2024-01-01T00:00:00'' [10])
       = [proc 10 (Some 4) ''2024-01-01T00:00:02'' []]\<close>
proof -
  have a: \<open>processes (parse_evtx None (take (nat 2) three_units) parser_init) = two_registry\<close>
    by code_simp
  have b: \<open>processes (parse_csv None (take (nat 2) three_rows) parser_init) = two_registry\<close>
    by code_simp
  have c: \<open>map_of two_registry 12 = None
           \<and> map pid (get_root_processes two_registry) = [4]
           \<and> sorted_children two_registry (proc 4 (Some 0) ''2024-01-01T00:00:00'' [10])
               = [proc 10 (Some 4) ''2024-01-01T00:00:02'' []]\<close>
    by code_simp
  show ?thesis
    using C8_cap_keeps_first_records [of 2 three_units three_rows] a b c by simp
qed

section \<open>Roots\<close>

lemma root_pids:
  assumes \<open>final_registry reg\<close>
  shows \<open>pid ` set (get_root_processes reg) =
         {k. \<exists>pp. (k, pp) \<in> parent_links reg
                 \<and> (case pp of None \<Rightarrow> True | Some a \<Rightarrow> a \<notin> fst ` parent_links reg)}\<close>
proof -
  have k: \<open>fst ` parent_links reg = fst ` set reg\<close>
    by (simp add: parent_links_def final_keys_pids [OF assms] image_image)
  show ?thesis
    unfolding k
    by (auto simp add: set_roots is_root_def parent_links_def image_iff) 
qed

text \<open>
  Claim C4: in the registry of a run, a record is among the roots exactly when its parent
  pid is absent or is the pid of no record of the registry.  The pids of the roots are the
  same for any other run whose registry holds the same pairs of pid and parent pid, in
  whatever order the records were inserted.
\<close>

theorem C4_root_iff:
  assumes \<open>final_registry reg\<close> \<open>r \<in> snd ` set reg\<close>
  shows \<open>(r \<in> set (get_root_processes reg) \<longleftrightarrow>
            ppid r = None \<or> (\<exists>pp. ppid r = Some pp \<and> pp \<notin> pid ` snd ` set reg))
         \<and> (\<forall>reg'. final_registry reg' \<and> parent_links reg' = parent_links reg \<longrightarrow>
               pid ` set (get_root_processes reg') = pid ` set (get_root_processes reg))\<close>
proof (intro conjI allI impI)
  show \<open>r \<in> set (get_root_processes reg) \<longleftrightarrow>
          ppid r = None \<or> (\<exists>pp. ppid r = Some pp \<and> pp \<notin> pid ` snd ` set reg)\<close>
    using assms(2)
    by (auto simp add: set_roots is_root_def final_keys_pids [OF assms(1), symmetric]
        split: option.splits)
next
  fix reg'
  assume \<open>final_registry reg' \<and> parent_links reg' = parent_links reg\<close>
  then have f: \<open>final_registry reg'\<close> and l: \<open>parent_links reg' = parent_links reg\<close>
    by simp_all
  show \<open>pid ` set (get_root_processes reg') = pid ` set (get_root_processes reg)\<close>
    unfolding root_pids [OF assms(1)] root_pids [OF f] l by (rule refl)
qed

text \<open>
  Claim C4 on the log with a cycle: the record 4 has the parent pid 0, which is no pid of
  the registry, and is a root; the log read backwards gives the same roots.
\<close>

theorem C4_root_iff_witness:
  \<open>final_registry cyclic_registry
   \<and> proc 4 (Some 0) ''2024-01-01T00:00:05'' [9] \<in> snd ` set cyclic_registry
   \<and> proc 4 (Some 0) ''2024-01-01T00:00:05'' [9] \<in> set (get_root_processes cyclic_registry)
   \<and> ppid (proc 4 (Some 0) ''2024-01-01T00:00:05'' [9]) = Some 0
   \<and> 0 \<notin> pid ` snd ` set cyclic_registry
   \<and> final_registry (processes (parse_evtx None (rev cyclic_log) parser_init))
   \<and> map fst (processes (parse_evtx None (rev cyclic_log) parser_init)) = [9, 8, 7, 4]
   \<and> pid ` set (get_root_processes (processes (parse_evtx None (rev cyclic_log) parser_init)))
       = pid ` set (get_root_processes cyclic_registry)\<close>
proof -
  let ?r = \<open>proc 4 (Some 0) ''2024-01-01T00:00:05'' [9]\<close>
  let ?reg' = \<open>processes (parse_evtx None (rev cyclic_log) parser_init)\<close>
  have a: \<open>?r \<in> snd ` set cyclic_registry\<close>
    by (simp add: cyclic_registry_def)
  have b: \<open>ppid ?r = Some 0 \<and> 0 \<notin> pid ` snd ` set cyclic_registry\<close>
    by (simp add: cyclic_registry_def proc_def)
  have c: \<open>final_registry ?reg'\<close>
    by (rule final_registry.evtx)
  have d: \<open>parent_links ?reg' = parent_links cyclic_registry\<close>
    by code_simp
  have e: \<open>map fst ?reg' = [9, 8, 7, 4]\<close>
    by code_simp
  show ?thesis
    using C4_root_iff [OF cyclic_final a] a b c d e cyclic_final by blast
qed

section \<open>Order of roots and children\<close>

lemma empty_key_first:
  fixes f :: \<open>'a \<Rightarrow> string\<close>
  shows \<open>sorted (map f xs) \<Longrightarrow> xs = filter (\<lambda>x. f x = []) xs @ filter (\<lambda>x. f x \<noteq> []) xs\<close>
proof (induction xs)
  case Nil
  then show ?case by simp
next
  case (Cons x xs)
  show ?case
  proof (cases \<open>f x = []\<close>)
    case True
    then show ?thesis
      using Cons by simp
  next
    case False
    have \<open>\<forall>y \<in> set xs. f x \<le> f y\<close>
      using Cons.prems by simp
    then have \<open>\<forall>y \<in> set xs. f y \<noteq> []\<close>
      using False by auto
    then have \<open>filter (\<lambda>x. f x = []) xs = []\<close> \<open>filter (\<lambda>x. f x \<noteq> []) xs = xs\<close>
      by (simp_all add: filter_empty_conv)
    then show ?thesis
      using False by simp
  qed
qed

lemma sort_three:
  fixes f :: \<open>'a \<Rightarrow> string\<close>
  assumes \<open>f c2 = []\<close> \<open>f c1 < f c3\<close>
  shows \<open>map f (sort_key f [c1, c2, c3]) = [f c2, f c1, f c3]\<close>
    and \<open>f c1 \<noteq> [] \<Longrightarrow> sort_key f [c1, c2, c3] = [c2, c1, c3]\<close>
  using assms by (auto simp add: less_imp_le)

text \<open>
  Claim C6: in the registry of a run the roots are in ascending order of their time stamps,
  records with equal time stamps in the order of the registry, and those without a time
  stamp first.  The children that the renderer walks for an entry are the records whose
  parent pid is the key of the entry, in the same order.  So three children \<open>c1\<close>, \<open>c2\<close>,
  \<open>c3\<close> in registry order, \<open>c2\<close> without a time stamp and \<open>c1\<close> before \<open>c3\<close>, are rendered
  with the time stamps of \<open>c2\<close>, \<open>c1\<close>, \<open>c3\<close> in this order.
\<close>

theorem C6_sorted_by_timestamp:
  assumes \<open>final_registry reg\<close> \<open>e \<in> set reg\<close>
  shows \<open>sorted (map timestamp (get_root_processes reg))
         \<and> (\<forall>t. filter (\<lambda>p. timestamp p = t) (get_root_processes reg) =
                 filter (\<lambda>p. timestamp p = t) (filter (is_root reg) (map snd reg)))
         \<and> get_root_processes reg =
             filter (\<lambda>p. timestamp p = []) (get_root_processes reg)
             @ filter (\<lambda>p. timestamp p \<noteq> []) (get_root_processes reg)
         \<and> sorted (map timestamp (sorted_children reg (snd e)))
         \<and> (\<forall>t. filter (\<lambda>p. timestamp p = t) (sorted_children reg (snd e)) =
                 filter (\<lambda>p. timestamp p = t)
                   (filter (\<lambda>q. ppid q = Some (fst e)) (map snd reg)))
         \<and> sorted_children reg (snd e) =
             filter (\<lambda>p. timestamp p = []) (sorted_children reg (snd e))
             @ filter (\<lambda>p. timestamp p \<noteq> []) (sorted_children reg (snd e))
         \<and> (\<forall>c1 c2 c3.
               filter (\<lambda>q. ppid q = Some (fst e)) (map snd reg) = [c1, c2, c3]
               \<and> timestamp c2 = [] \<and> timestamp c1 < timestamp c3 \<longrightarrow>
               map timestamp (sorted_children reg (snd e))
                 = [timestamp c2, timestamp c1, timestamp c3]
               \<and> (timestamp c1 \<noteq> [] \<longrightarrow> sorted_children reg (snd e) = [c2, c1, c3]))\<close>
proof -
  have r1: \<open>sorted (map timestamp (get_root_processes reg))\<close>
    by (simp add: get_root_processes_def)
  have r2: \<open>filter (\<lambda>p. timestamp p = t) (get_root_processes reg) =
            filter (\<lambda>p. timestamp p = t) (filter (is_root reg) (map snd reg))\<close> for t
    unfolding get_root_processes_def by (rule sort_key_stable)
  have r3: \<open>get_root_processes reg =
             filter (\<lambda>p. timestamp p = []) (get_root_processes reg)
             @ filter (\<lambda>p. timestamp p \<noteq> []) (get_root_processes reg)\<close>
    using r1 by (rule empty_key_first)
  have sc: \<open>sorted_children reg (snd e) =
            sort_key timestamp (filter (\<lambda>q. ppid q = Some (fst e)) (map snd reg))\<close>
    using assms by (rule final_sorted_children)
  have c1: \<open>sorted (map timestamp (sorted_children reg (snd e)))\<close>
    by (simp add: sc)
  have c2: \<open>filter (\<lambda>p. timestamp p = t) (sorted_children reg (snd e)) =
            filter (\<lambda>p. timestamp p = t) (filter (\<lambda>q. ppid q = Some (fst e)) (map snd reg))\<close> for t
    unfolding sc by (rule sort_key_stable)
  have c3: \<open>sorted_children reg (snd e) =
             filter (\<lambda>p. timestamp p = []) (sorted_children reg (snd e))
             @ filter (\<lambda>p. timestamp p \<noteq> []) (sorted_children reg (snd e))\<close>
    using c1 by (rule empty_key_first)
  have c4: \<open>map timestamp (sorted_children reg (snd e)) = [timestamp c2, timestamp c1, timestamp c3]
            \<and> (timestamp c1 \<noteq> [] \<longrightarrow> sorted_children reg (snd e) = [c2, c1, c3])\<close>
    if \<open>filter (\<lambda>q. ppid q = Some (fst e)) (map snd reg) = [c1, c2, c3]
        \<and> timestamp c2 = [] \<and> timestamp c1 < timestamp c3\<close> for c1 c2 c3
    using that sort_three [of timestamp c2 c1 c3] by (simp add: sc)
  show ?thesis
    using r1 r2 r3 c1 c2 c3 c4 by blast
qed

text \<open>Claim C6 on a parent with the children 10, 11 and 12, of which 11 has no time stamp.\<close>

theorem C6_sorted_by_timestamp_witness:
  \<open>final_registry siblings_registry
   \<and> (4, proc 4 (Some 0) ''2024-01-01T00:00:00'' [10, 11, 12]) \<in> set siblings_registry
   \<and> filter (\<lambda>q. ppid q = Some 4) (map snd siblings_registry)
       = [proc 10 (Some 4) ''2024-01-01T00:00:02'' [], proc 11 (Some 4) [] [],
          proc 12 (Some 4) ''2024-01-01T00:00:05'' []]
   \<and> sorted_children siblings_registry (proc 4 (Some 0) ''2024-01-01T00:00:00'' [10, 11, 12])
       = [proc 11 (Some 4) [] [], proc 10 (Some 4) ''2024-01-01T00:00:02'' [],
          proc 12 (Some 4) ''2024-01-01T00:00:05'' []]
   \<and> sorted (map timestamp (get_root_processes siblings_registry))\<close>
proof -
  let ?e = \<open>(4, proc 4 (Some 0) ''2024-01-01T00:00:00'' [10, 11, 12])\<close>
  have a: \<open>?e \<in> set siblings_registry\<close>
    by (simp add: siblings_registry_def)
  have b: \<open>filter (\<lambda>q. ppid q = Some 4) (map snd siblings_registry)
       = [proc 10 (Some 4) ''2024-01-01T00:00:02'' [], proc 11 (Some 4) [] [],
          proc 12 (Some 4) ''2024-01-01T00:00:05'' []]\<close>
    by (simp add: siblings_registry_def proc_def)
  have c: \<open>timestamp (proc 11 (Some 4) [] []) = []
           \<and> timestamp (proc 10 (Some 4) ''2024-01-01T00:00:02'' [])
               < timestamp (proc 12 (Some 4) ''2024-01-01T00:00:05'' [])
           \<and> timestamp (proc 10 (Some 4) ''2024-01-01T00:00:02'' []) \<noteq> []\<close>
    by code_simp
  show ?thesis
    using C6_sorted_by_timestamp [OF siblings_final a] a b c siblings_final by simp
qed

text \<open>The renderer puts the texts of the children in the order of \<^const>\<open>sorted_children\<close>.\<close>

lemma gen_proc_html_children:
  assumes \<open>gen_proc_html (Suc n) fe reg p = Some h\<close> \<open>length (children p) > 0\<close>
  shows \<open>\<exists>hs. those (map (gen_proc_html n fe reg) (sorted_children reg p)) = Some hs
              \<and> h = node_html fe p @ children_html hs @ ''</div>''\<close>
  using assms by (auto split: option.splits)

section \<open>Rendering paths and termination\<close>

lemma call_path_values:
  \<open>call_path reg st \<Longrightarrow> final_registry reg \<Longrightarrow> set st \<subseteq> snd ` set reg\<close>
proof (induction rule: call_path.induct)
  case (root r reg)
  then show ?case by (simp add: set_roots)
next
  case (child reg p ps c)
  have vs: \<open>set (p # ps) \<subseteq> snd ` set reg\<close>
    using child.IH child.prems by simp
  then have pv: \<open>p \<in> snd ` set reg\<close> by simp
  have \<open>c \<in> snd ` set reg\<close>
    using set_sorted_children [OF child.prems pv] child.hyps(3) by simp
  then show ?case
    using vs by simp
qed

lemma call_path_parent:
  \<open>call_path reg st \<Longrightarrow> final_registry reg \<Longrightarrow> x \<in> set st \<Longrightarrow> ppid x = Some k \<Longrightarrow>
   k \<in> fst ` set reg \<Longrightarrow> \<exists>y \<in> set (tl st). pid y = k\<close>
proof (induction rule: call_path.induct)
  case (root r reg)
  then show ?case by (auto simp add: set_roots is_root_def)
next
  case (child reg p ps c)
  have pv: \<open>p \<in> snd ` set reg\<close>
    using call_path_values [OF child.hyps(1) child.prems(1)] by simp
  show ?case
  proof (cases \<open>x = c\<close>)
    case True
    then have \<open>ppid x = Some (pid p)\<close>
      using set_sorted_children [OF child.prems(1) pv] child.hyps(3) by simp
    then show ?thesis
      using child.prems(3) by simp
  next
    case False
    then have \<open>x \<in> set (p # ps)\<close>
      using child.prems(2) by simp
    then have \<open>\<exists>y \<in> set (tl (p # ps)). pid y = k\<close>
      using child.IH child.prems by blast
    then show ?thesis by auto
  qed
qed












lemma cycle_member_not_root:
  assumes \<open>final_registry reg\<close> \<open>S \<subseteq> snd ` set reg\<close>
    and \<open>\<forall>m \<in> S. \<exists>m' \<in> S. ppid m = Some (pid m')\<close> and \<open>m \<in> S\<close>
  shows \<open>m \<notin> set (get_root_processes reg)\<close>
proof -
  obtain m' where m': \<open>m' \<in> S\<close> \<open>ppid m = Some (pid m')\<close>
    using assms(3,4) by blast
  have \<open>m' \<in> snd ` set reg\<close>
    using m'(1) assms(2) by blast
  then have \<open>pid m' \<in> fst ` set reg\<close>
    by (rule final_key [OF assms(1)])
  then show ?thesis
    using m'(2) by (simp add: set_roots is_root_def)
qed

lemma call_path_avoids_cycle:
  \<open>call_path reg st \<Longrightarrow> final_registry reg \<Longrightarrow> S \<subseteq> snd ` set reg \<Longrightarrow>
   \<forall>m \<in> S. \<exists>m' \<in> S. ppid m = Some (pid m') \<Longrightarrow> set st \<inter> S = {}\<close>
proof (induction rule: call_path.induct)
  case (root r reg)
  then show ?case
    using cycle_member_not_root [of reg S r] by auto
next
  case (child reg p ps c)
  have dis: \<open>set (p # ps) \<inter> S = {}\<close>
    using child.IH child.prems by blast
  have pv: \<open>p \<in> snd ` set reg\<close>
    using call_path_values [OF child.hyps(1) child.prems(1)] by simp
  have c: \<open>ppid c = Some (pid p)\<close>
    using set_sorted_children [OF child.prems(1) pv] child.hyps(3) by simp
  have \<open>c \<notin> S\<close>
  proof
    assume \<open>c \<in> S\<close>
    then obtain m' where m': \<open>m' \<in> S\<close> \<open>ppid c = Some (pid m')\<close>
      using child.prems(3) by blast
    have \<open>m' \<in> snd ` set reg\<close>
      using m'(1) child.prems(2) by blast
    moreover have \<open>pid p = pid m'\<close>
      using c m'(2) by simp
    ultimately have \<open>p = m'\<close>
      using final_same_pid [OF child.prems(1) pv] by simp
    then show False
      using dis m'(1) by simp
  qed
  then show ?case
    using dis by simp
qed

text \<open>
  Claim C9: in the registry of a run, let every record of a set \<open>S\<close> have as parent pid the
  pid of a record of \<open>S\<close>.  Then no record of \<open>S\<close> is a root, and none is on a rendering
  path: the renderer is never called on it, and no record that it is called on has the pid
  of a record of \<open>S\<close> as its pid or as its parent pid.
\<close>

theorem C9_cycle_members_omitted:
  assumes \<open>final_registry reg\<close> \<open>S \<subseteq> snd ` set reg\<close>
    and \<open>\<forall>m \<in> S. \<exists>m' \<in> S. ppid m = Some (pid m')\<close>
  shows \<open>\<forall>m \<in> S. m \<notin> set (get_root_processes reg)
            \<and> (\<forall>st. call_path reg st \<longrightarrow>
                  (\<forall>x \<in> set st. x \<noteq> m \<and> pid x \<noteq> pid m \<and> ppid x \<noteq> Some (pid m)))\<close>
proof (intro ballI conjI allI impI)
  fix m
  assume \<open>m \<in> S\<close>
  then show \<open>m \<notin> set (get_root_processes reg)\<close>
    using assms by (intro cycle_member_not_root)
next
  fix m st x
  assume m: \<open>m \<in> S\<close> and st: \<open>call_path reg st\<close> and x: \<open>x \<in> set st\<close>
  have mv: \<open>m \<in> snd ` set reg\<close>
    using m assms(2) by blast
  have av: \<open>set st \<inter> S = {}\<close>
    using st assms by (rule call_path_avoids_cycle)
  then have nm: \<open>m \<notin> set st\<close>
    using m by blast
  then show \<open>x \<noteq> m\<close>
    using x by blast
  have vs: \<open>set st \<subseteq> snd ` set reg\<close>
    using st assms(1) by (rule call_path_values)
  show \<open>pid x \<noteq> pid m\<close>
  proof
    assume \<open>pid x = pid m\<close>
    moreover have \<open>x \<in> snd ` set reg\<close>
      using x vs by blast
    ultimately have \<open>x = m\<close>
      using final_same_pid [OF assms(1) _ mv] by simp
    then show False
      using x nm by simp
  qed
  show \<open>ppid x \<noteq> Some (pid m)\<close>
  proof
    assume p: \<open>ppid x = Some (pid m)\<close>
    have \<open>pid m \<in> fst ` set reg\<close>
      using assms(1) mv by (rule final_key)
    then obtain y where y: \<open>y \<in> set (tl st)\<close> \<open>pid y = pid m\<close>
      using call_path_parent [OF st assms(1) x p] by blast
    then have ys: \<open>y \<in> set st\<close>
      by (metis list.sel(2) list.set_sel(2))
    then have \<open>y \<in> snd ` set reg\<close>
      using vs by blast
    then have \<open>y = m\<close>
      using final_same_pid [OF assms(1) _ mv y(2)] by simp
    then show False
      using ys nm by simp
  qed
qed

text \<open>Claim C9 on the records 7 and 8 of the log with a cycle: the only root is 4.\<close>

theorem C9_cycle_members_omitted_witness:
  \<open>final_registry cyclic_registry
   \<and> {proc 7 (Some 8) ''2024-01-01T00:00:01'' [8], proc 8 (Some 7) ''2024-01-01T00:00:02'' [7]}
       \<subseteq> snd ` set cyclic_registry
   \<and> ppid (proc 7 (Some 8) ''2024-01-01T00:00:01'' [8])
       = Some (pid (proc 8 (Some 7) ''2024-01-01T00:00:02'' [7]))
   \<and> ppid (proc 8 (Some 7) ''2024-01-01T00:00:02'' [7])
       = Some (pid (proc 7 (Some 8) ''2024-01-01T00:00:01'' [8]))
   \<and> proc 7 (Some 8) ''2024-01-01T00:00:01'' [8] \<notin> set (get_root_processes cyclic_registry)
   \<and> proc 8 (Some 7) ''2024-01-01T00:00:02'' [7] \<notin> set (get_root_processes cyclic_registry)
   \<and> map pid (get_root_processes cyclic_registry) = [4]\<close>
proof -
  let ?p7 = \<open>proc 7 (Some 8) ''2024-01-01T00:00:01'' [8]\<close>
  let ?p8 = \<open>proc 8 (Some 7) ''2024-01-01T00:00:02'' [7]\<close>
  have a: \<open>{?p7, ?p8} \<subseteq> snd ` set cyclic_registry\<close>
    by (simp add: cyclic_registry_def)
  have b: \<open>ppid ?p7 = Some (pid ?p8)\<close> \<open>ppid ?p8 = Some (pid ?p7)\<close>
    by (simp_all add: proc_def)
  then have c: \<open>\<forall>m \<in> {?p7, ?p8}. \<exists>m' \<in> {?p7, ?p8}. ppid m = Some (pid m')\<close>
    by simp
  have d: \<open>map pid (get_root_processes cyclic_registry) = [4]\<close>
    by code_simp
  show ?thesis
    using C9_cycle_members_omitted [OF cyclic_final a c] a b d cyclic_final by simp
qed

end
